theory Spec2Isabelle
  imports Main "HOL-Library.Sublist" "HOL-Library.Word"
begin

section \<open>The patch descriptor model (Patcher.hpp)\<close>

text \<open>
  \<^verbatim>\<open>enum class Type : uint32_t { ReplaceOne, ExplicitFunction }\<close> and
  \<^verbatim>\<open>struct Descriptor { Type type; std::string_view token, replacement; }\<close>.
  A \<^verbatim>\<open>std::string\<close> and the bytes a \<^verbatim>\<open>std::string_view\<close> covers are
  both a \<^typ>\<open>string\<close>: a list of 8-bit characters, with no encoding attached.
\<close>

datatype Type = ReplaceOne | ExplicitFunction

record Descriptor =
  type :: Type
  token :: string
  replacement :: string

section \<open>The string primitives the engine calls\<close>

text \<open>
  \<^verbatim>\<open>haystack.find(needle)\<close>: the least position at which \<open>needle\<close> starts,
  \<open>None\<close> for \<^verbatim>\<open>npos\<close>. The empty needle is found at position 0, also in the
  empty haystack.
\<close>

fun find_str :: "string \<Rightarrow> string \<Rightarrow> nat option" where
  "find_str [] needle = (if needle = [] then Some 0 else None)"
| "find_str (c # cs) needle =
     (if prefix needle (c # cs) then Some 0 else map_option Suc (find_str cs needle))"

text \<open>
  \<^verbatim>\<open>file.replace(pos, len, str)\<close> for \<open>pos \<le> size\<close>: the \<open>len\<close> bytes from
  \<open>pos\<close> (fewer when the string ends earlier) give way to \<open>str\<close>. Every call of
  the engine has \<open>pos \<le> size\<close>, so the \<^verbatim>\<open>out_of_range\<close> exception is never raised.
\<close>

definition replace_str :: "string \<Rightarrow> nat \<Rightarrow> nat \<Rightarrow> string \<Rightarrow> string" where
  "replace_str file pos len str = take pos file @ str @ drop (pos + len) file"

section \<open>The function body locator (Patcher.cpp)\<close>

text \<open>
  The \<^verbatim>\<open>for\<close> loop of \<^verbatim>\<open>FindExplicitFunctionBody\<close>, with its four variables as
  arguments: \<open>b\<close> is \<^verbatim>\<open>begin\<close>, \<open>e\<close> is \<^verbatim>\<open>end\<close>. The counter \<^verbatim>\<open>depth\<close> is a
  \<^verbatim>\<open>size_t\<close>, a 64-bit word here: decrementing it at zero wraps around.
\<close>

function scan_body :: "string \<Rightarrow> nat \<Rightarrow> nat \<Rightarrow> bool \<Rightarrow> 64 word \<Rightarrow> nat \<times> nat" where
  "scan_body haystack b e foundBegin depth =
     (if e < length haystack \<and> \<not> (foundBegin \<and> depth = 0) then
        (if haystack ! e = CHR ''{'' then
           scan_body haystack (if foundBegin then b else e) (e + 1) True (depth + 1)
         else if haystack ! e = CHR ''}'' then
           scan_body haystack b (e + 1) foundBegin (depth - 1)
         else scan_body haystack b (e + 1) foundBegin depth)
      else (b, e))"
  by pat_completeness auto
termination
  by (relation "measure (\<lambda>(haystack, b, e, foundBegin, depth). length haystack - e)") auto

declare scan_body.simps [simp del]

text \<open>
  \<^verbatim>\<open>FindExplicitFunctionBody\<close>: \<^verbatim>\<open>std::format("function {}(", function)\<close> is the
  anchor, and \<^verbatim>\<open>return {}\<close> is the pair \<open>(0, 0)\<close>.
\<close>

definition FindExplicitFunctionBody :: "string \<Rightarrow> string \<Rightarrow> nat \<times> nat" where
  "FindExplicitFunctionBody haystack function =
     (case find_str haystack (''function '' @ function @ ''('') of
        None \<Rightarrow> (0, 0)
      | Some definition \<Rightarrow>
          (case scan_body haystack definition definition False 0 of
             (b, e) \<Rightarrow> if e = length haystack then (0, 0) else (b, e)))"

section \<open>The patch engine (Patcher.cpp)\<close>

text \<open>
  \<^verbatim>\<open>Apply\<close> mutates \<open>file\<close> in place and returns a \<^verbatim>\<open>string_view\<close>; the model
  returns the bytes of that view and the final buffer. \<^verbatim>\<open>return {}\<close> is the empty
  view, \<^verbatim>\<open>return desc.token\<close> is the token.
\<close>

fun Apply :: "string \<Rightarrow> Descriptor list \<Rightarrow> string \<times> string" where
  "Apply file [] = ([], file)"
| "Apply file (desc # descs) =
     (case type desc of
        ReplaceOne \<Rightarrow>
          (case find_str file (token desc) of
             None \<Rightarrow> (token desc, file)
           | Some pos \<Rightarrow>
               Apply (replace_str file pos (length (token desc)) (replacement desc)) descs)
      | ExplicitFunction \<Rightarrow>
          (case FindExplicitFunctionBody file (token desc) of
             (b, e) \<Rightarrow>
               if b = 0 \<or> e = 0 then (token desc, file)
               else Apply (replace_str file b (e - b) (replacement desc)) descs))"

section \<open>One iteration of the loop of \<open>Apply\<close>\<close>

text \<open>
  The claims speak of a descriptor that fails to match and of the span a descriptor
  replaces. Both are read off the body of the loop: \<open>misses\<close> is the condition under
  which the iteration returns the token, \<open>span\<close> is the pair (position, length) handed to
  \<^verbatim>\<open>file.replace\<close>, and \<open>patched\<close> is the buffer after that call.
\<close>

definition misses :: "Descriptor \<Rightarrow> string \<Rightarrow> bool" where
  "misses desc file =
     (case type desc of
        ReplaceOne \<Rightarrow> find_str file (token desc) = None
      | ExplicitFunction \<Rightarrow>
          (case FindExplicitFunctionBody file (token desc) of (b, e) \<Rightarrow> b = 0 \<or> e = 0))"

definition span :: "Descriptor \<Rightarrow> string \<Rightarrow> nat \<times> nat" where
  "span desc file =
     (case type desc of
        ReplaceOne \<Rightarrow>
          (case find_str file (token desc) of
             None \<Rightarrow> (0, 0)
           | Some pos \<Rightarrow> (pos, length (token desc)))
      | ExplicitFunction \<Rightarrow>
          (case FindExplicitFunctionBody file (token desc) of (b, e) \<Rightarrow> (b, e - b)))"

definition patched :: "Descriptor \<Rightarrow> string \<Rightarrow> string" where
  "patched desc file =
     (case span desc file of (pos, len) \<Rightarrow> replace_str file pos len (replacement desc))"

text \<open>
  \<open>applies_all file descs\<close>: the loop runs through all of \<open>descs\<close> and reaches the final
  \<^verbatim>\<open>return {}\<close>, no iteration having returned early.
\<close>

fun applies_all :: "string \<Rightarrow> Descriptor list \<Rightarrow> bool" where
  "applies_all file [] = True"
| "applies_all file (desc # descs) =
     (\<not> misses desc file \<and> applies_all (patched desc file) descs)"

text \<open>
  An occurrence of \<open>needle\<close> in \<open>haystack\<close> at position \<open>p\<close>.
\<close>

definition occurs_at :: "string \<Rightarrow> string \<Rightarrow> nat \<Rightarrow> bool" where
  "occurs_at needle haystack p = (p \<le> length haystack \<and> prefix needle (drop p haystack))"

text \<open>
  The positions at which \<open>needle\<close> occurs in \<open>haystack\<close>, in increasing order.
\<close>

definition occurrences :: "string \<Rightarrow> string \<Rightarrow> nat list" where
  "occurrences needle haystack =
     filter (occurs_at needle haystack) [0..<Suc (length haystack)]"

text \<open>
  The first-match property as the specification words it, for a \<open>ReplaceOne\<close> descriptor
  with token \<open>tok\<close> and replacement \<open>rep\<close> on a buffer in which the token occurs at
  \<open>p1 < p2 < \<dots>\<close>: the first application replaces the occurrence at \<open>p1\<close>; a second
  application to the result replaces the occurrence that was at \<open>p2\<close>, so that both
  are replaced, or fails when \<open>p1\<close> was the only occurrence.
\<close>

definition first_match_as_claimed :: "string \<Rightarrow> string \<Rightarrow> string \<Rightarrow> bool" where
  "first_match_as_claimed buf tok rep =
     (case occurrences tok buf of
        [] \<Rightarrow> True
      | [p1] \<Rightarrow>
          Apply buf [\<lparr>type = ReplaceOne, token = tok, replacement = rep\<rparr>]
            = ([], replace_str buf p1 (length tok) rep)
          \<and> misses \<lparr>type = ReplaceOne, token = tok, replacement = rep\<rparr>
               (replace_str buf p1 (length tok) rep)
      | p1 # p2 # ps \<Rightarrow>
          Apply buf [\<lparr>type = ReplaceOne, token = tok, replacement = rep\<rparr>]
            = ([], replace_str buf p1 (length tok) rep)
          \<and> Apply (replace_str buf p1 (length tok) rep)
               [\<lparr>type = ReplaceOne, token = tok, replacement = rep\<rparr>]
            = ([], replace_str (replace_str buf p2 (length tok) rep) p1 (length tok) rep))"

section \<open>The driver (Main.cpp)\<close>

text \<open>
  The part of the file system the driver touches: which paths exist
  (\<^verbatim>\<open>std::filesystem::exists\<close>), the bytes of the files that can be opened for reading,
  and the paths an \<^verbatim>\<open>ofstream\<close> can be opened on. Paths are compared as strings.
\<close>

record FS =
  path_exists :: "string \<Rightarrow> bool"
  files :: "string \<rightharpoonup> string"
  writable :: "string \<Rightarrow> bool"

text \<open>
  A \<^verbatim>\<open>const char *\<close> read as a C string ends before the first NUL byte. The driver
  takes this view of a string each time it passes \<^verbatim>\<open>.data()\<close> to a stream constructor,
  to \<^verbatim>\<open>printf("%s")\<close> or to the \<^verbatim>\<open>std::string\<close> constructor.
\<close>

definition c_str :: "string \<Rightarrow> string" where
  "c_str s = takeWhile (\<lambda>c. c \<noteq> CHR 0x00) s"

text \<open>
  \<^verbatim>\<open>ReadFileUTF8\<close>: an unopened stream gives the empty string; otherwise all bytes of the
  file go into \<^verbatim>\<open>binary\<close>, a zero byte is appended, and the result is the
  \<^verbatim>\<open>std::string\<close> built from the pointer \<^verbatim>\<open>binary.data()\<close>.
\<close>

definition ReadFileUTF8 :: "FS \<Rightarrow> string \<Rightarrow> string" where
  "ReadFileUTF8 fs path =
     (case files fs (c_str path) of
        None \<Rightarrow> []
      | Some binary \<Rightarrow> c_str (binary @ [CHR 0x00]))"

text \<open>
  \<^verbatim>\<open>WriteFileUTF8\<close>: opens the path truncating and writes \<open>contents\<close>; the result is
  the state of the stream after the write, false when the stream could not be opened.
\<close>

definition WriteFileUTF8 :: "FS \<Rightarrow> string \<Rightarrow> string \<Rightarrow> FS \<times> bool" where
  "WriteFileUTF8 fs path contents =
     (if writable fs (c_str path)
      then (fs\<lparr>files := (files fs)(c_str path \<mapsto> contents)\<rparr>, True)
      else (fs, False))"

text \<open>The three format strings of the loop, with their \<^verbatim>\<open>%s\<close> arguments.\<close>

definition msg_unreadable :: "string \<Rightarrow> string" where
  "msg_unreadable file = ''Unable to read contents of file:('' @ c_str file @ '')'' @ [CHR 0x0A]"

definition msg_patch_miss :: "string \<Rightarrow> string \<Rightarrow> string" where
  "msg_patch_miss file tok =
     ''Unable to apply all patches to file:('' @ c_str file @ ''), token:('' @ c_str tok
       @ '')'' @ [CHR 0x0A]"

definition msg_patched :: "string \<Rightarrow> string" where
  "msg_patched file = ''Patched file:('' @ c_str file @ '')'' @ [CHR 0x0A]"

text \<open>
  The loop of \<^verbatim>\<open>main\<close> over the map \<^verbatim>\<open>patches\<close>. An \<^verbatim>\<open>unordered_map\<close> is iterated
  in an unspecified order, so the model takes the entries as a list in the order of
  iteration. The state is the file system and the lines printed so far; the result adds
  the exit status. The value of \<^verbatim>\<open>WriteFileUTF8\<close> is discarded, as in the source.
\<close>

fun main_loop :: "FS \<Rightarrow> string list \<Rightarrow> (string \<times> Descriptor list) list \<Rightarrow> FS \<times> string list \<times> int" where
  "main_loop fs out [] = (fs, out, 0)"
| "main_loop fs out ((file, descs) # rest) =
     (let contents = ReadFileUTF8 fs file in
      if contents = [] then (fs, out @ [msg_unreadable file], - 1)
      else
        (case Apply contents descs of
           (tok, contents') \<Rightarrow>
             if tok \<noteq> [] then (fs, out @ [msg_patch_miss file tok], - 1)
             else
               (case WriteFileUTF8 fs file contents' of
                  (fs', ok) \<Rightarrow> main_loop fs' (out @ [msg_patched file]) rest)))"

text \<open>
  \<^verbatim>\<open>main\<close>, with \<open>unpacked\<close> for \<^verbatim>\<open>argv[1]\<close> and \<open>patches\<close> for the entries of the map
  built from it.
\<close>

definition main :: "FS \<Rightarrow> string \<Rightarrow> (string \<times> Descriptor list) list \<Rightarrow> FS \<times> string list \<times> int" where
  "main fs unpacked patches =
     (if \<not> path_exists fs unpacked then
        (fs, [''Unpacked game directory not found'' @ [CHR 0x0A]], - 1)
      else main_loop fs [] patches)"

section \<open>Searching\<close>

lemma find_str_Some_D:
  "find_str h n = Some p \<Longrightarrow> p \<le> length h \<and> prefix n (drop p h) \<and> (\<forall>k<p. \<not> prefix n (drop k h))"
proof (induction h arbitrary: p)
  case Nil
  then show ?case by (simp split: if_splits)
next
  case (Cons c cs)
  show ?case
  proof (cases "prefix n (c # cs)")
    case True
    with Cons.prems show ?thesis by simp
  next
    case False
    with Cons.prems obtain q where q: "find_str cs n = Some q" "p = Suc q"
      by auto
    from Cons.IH [OF q(1)] have ih: "q \<le> length cs" "prefix n (drop q cs)"
      "\<forall>k<q. \<not> prefix n (drop k cs)" by simp_all
    have "\<not> prefix n (drop k (c # cs))" if "k < p" for k
      using that False ih(3) q(2) by (cases k) simp_all
    with ih q(2) show ?thesis by simp
  qed
qed

lemma find_str_None_D:
  "find_str h n = None \<Longrightarrow> k \<le> length h \<Longrightarrow> \<not> prefix n (drop k h)"
proof (induction h arbitrary: k)
  case Nil
  then show ?case by (simp split: if_splits)
next
  case (Cons c cs)
  then show ?case by (cases k) (simp_all split: if_splits)
qed

lemma find_str_occurs:
  "find_str h n = Some p \<longleftrightarrow> occurs_at n h p \<and> (\<forall>k<p. \<not> occurs_at n h k)"
proof
  assume "find_str h n = Some p"
  from find_str_Some_D [OF this] show "occurs_at n h p \<and> (\<forall>k<p. \<not> occurs_at n h k)"
    by (simp add: occurs_at_def)
next
  assume a: "occurs_at n h p \<and> (\<forall>k<p. \<not> occurs_at n h k)"
  show "find_str h n = Some p"
  proof (cases "find_str h n")
    case None
    from find_str_None_D [OF this, of p] a show ?thesis by (simp add: occurs_at_def)
  next
    case (Some q)
    from find_str_Some_D [OF this] have q: "occurs_at n h q" "\<forall>k<q. \<not> prefix n (drop k h)"
      by (simp_all add: occurs_at_def)
    have "\<not> q < p" using a q(1) by blast
    moreover have "\<not> p < q" using a q(2) by (auto simp: occurs_at_def)
    ultimately show ?thesis using Some by simp
  qed
qed

lemma find_str_None_iff:
  "find_str h n = None \<longleftrightarrow> (\<forall>k. \<not> occurs_at n h k)"
proof
  assume "find_str h n = None"
  then show "\<forall>k. \<not> occurs_at n h k"
    using find_str_None_D by (auto simp: occurs_at_def)
next
  assume a: "\<forall>k. \<not> occurs_at n h k"
  show "find_str h n = None"
  proof (cases "find_str h n")
    case (Some q)
    with a show ?thesis using find_str_occurs by blast
  qed simp
qed

lemma occurs_at_length: "occurs_at n h p \<Longrightarrow> p + length n \<le> length h"
  by (auto simp: occurs_at_def dest: prefix_length_le)

section \<open>The scan stays inside the buffer\<close>

lemma scan_body_bounds:
  "scan_body h b e fb d = (b', e') \<Longrightarrow> b \<le> e \<Longrightarrow> e \<le> length h \<Longrightarrow> b' \<le> e' \<and> e' \<le> length h"
proof (induction h b e fb d rule: scan_body.induct)
  case (1 h b e fb d)
  show ?case
  proof (cases "e < length h \<and> \<not> (fb \<and> d = 0)")
    case False
    with "1.prems" show ?thesis by (auto simp add: scan_body.simps [of h b e fb d])
  next
    case True
    then have lt: "e + 1 \<le> length h" by simp
    show ?thesis
    proof (cases "h ! e = CHR ''{''")
      case open_brace: True
      with True "1.prems"(1)
      have "scan_body h (if fb then b else e) (e + 1) True (d + 1) = (b', e')"
        by (simp add: scan_body.simps [of h b e fb d])
      from "1.IH"(1) [OF True open_brace this _ lt] "1.prems"(2) show ?thesis by simp
    next
      case no_open: False
      show ?thesis
      proof (cases "h ! e = CHR ''}''")
        case close_brace: True
        with True no_open "1.prems"(1)
        have "scan_body h b (e + 1) fb (d - 1) = (b', e')"
          by (simp add: scan_body.simps [of h b e fb d])
        from "1.IH"(2) [OF True no_open close_brace this _ lt] "1.prems"(2) show ?thesis by simp
      next
        case other: False
        with True no_open "1.prems"(1)
        have "scan_body h b (e + 1) fb d = (b', e')"
          by (simp add: scan_body.simps [of h b e fb d])
        from "1.IH"(3) [OF True no_open other this _ lt] "1.prems"(2) show ?thesis by simp
      qed
    qed
  qed
qed

lemma FindExplicitFunctionBody_bounds:
  "FindExplicitFunctionBody h f = (b, e) \<Longrightarrow> b \<le> e \<and> e \<le> length h"
proof (cases "find_str h (''function '' @ f @ ''('')")
  case None
  assume "FindExplicitFunctionBody h f = (b, e)"
  with None show ?thesis by (simp add: FindExplicitFunctionBody_def)
next
  case (Some d)
  assume a: "FindExplicitFunctionBody h f = (b, e)"
  obtain b' e' where s: "scan_body h d d False 0 = (b', e')" by (cases "scan_body h d d False 0")
  from Some have "d \<le> length h" by (simp add: find_str_occurs occurs_at_def)
  with scan_body_bounds [OF s] have "b' \<le> e' \<and> e' \<le> length h" by simp
  with a Some s show ?thesis by (auto simp: FindExplicitFunctionBody_def split: if_splits)
qed

lemma span_in_bounds:
  assumes "\<not> misses d buf" and "span d buf = (pos, len)"
  shows "pos + len \<le> length buf"
proof (cases "type d")
  case ReplaceOne
  with assms obtain p where p: "find_str buf (token d) = Some p" "pos = p" "len = length (token d)"
    by (auto simp: misses_def span_def)
  then have "occurs_at (token d) buf p" by (simp add: find_str_occurs)
  with p show ?thesis by (simp add: occurs_at_length)
next
  case ExplicitFunction
  obtain b e where f: "FindExplicitFunctionBody buf (token d) = (b, e)"
    by (cases "FindExplicitFunctionBody buf (token d)")
  with ExplicitFunction assms(2) have "pos = b" "len = e - b" by (auto simp: span_def)
  with FindExplicitFunctionBody_bounds [OF f] show ?thesis by simp
qed

section \<open>The loop of \<open>Apply\<close>, one descriptor at a time\<close>

lemma Apply_Cons:
  "Apply file (desc # descs) =
     (if misses desc file then (token desc, file) else Apply (patched desc file) descs)"
  by (auto simp: misses_def patched_def span_def split: Type.splits option.splits prod.splits)

lemma Apply_append:
  "applies_all buf xs \<Longrightarrow> Apply buf (xs @ ys) = Apply (snd (Apply buf xs)) ys"
proof (induction xs arbitrary: buf)
  case Nil
  show ?case by simp
next
  case (Cons d ds)
  then show ?case by (simp add: Apply_Cons del: Apply.simps)
qed

lemma Apply_applies_all: "applies_all buf xs \<Longrightarrow> fst (Apply buf xs) = []"
proof (induction xs arbitrary: buf)
  case Nil
  show ?case by simp
next
  case (Cons d ds)
  then show ?case by (simp add: Apply_Cons del: Apply.simps)
qed

lemma Apply_first_miss:
  assumes "i < length descs" and "applies_all file (take i descs)"
    and "misses (descs ! i) (snd (Apply file (take i descs)))"
  shows "Apply file descs = (token (descs ! i), snd (Apply file (take i descs)))"
proof -
  have "descs = take i descs @ descs ! i # drop (Suc i) descs"
    using assms(1) by (simp add: id_take_nth_drop)
  then have "Apply file descs = Apply file (take i descs @ descs ! i # drop (Suc i) descs)"
    by simp
  also have "\<dots> = Apply (snd (Apply file (take i descs))) (descs ! i # drop (Suc i) descs)"
    using assms(2) by (rule Apply_append)
  also have "\<dots> = (token (descs ! i), snd (Apply file (take i descs)))"
    using assms(3) by (simp add: Apply_Cons del: Apply.simps)
  finally show ?thesis .
qed

lemma applies_all_append:
  "applies_all buf (xs @ ys) \<longleftrightarrow> applies_all buf xs \<and> applies_all (snd (Apply buf xs)) ys"
proof (induction xs arbitrary: buf)
  case Nil
  show ?case by simp
next
  case (Cons d ds)
  then show ?case by (simp add: Apply_Cons del: Apply.simps)
qed

lemma applies_all_step:
  assumes "applies_all buf descs" and "i < length descs"
  shows "applies_all buf (take i descs)"
    and "\<not> misses (descs ! i) (snd (Apply buf (take i descs)))"
    and "snd (Apply buf (take (Suc i) descs)) = patched (descs ! i) (snd (Apply buf (take i descs)))"
proof -
  have d: "descs = take i descs @ descs ! i # drop (Suc i) descs"
    using assms(2) by (simp add: id_take_nth_drop)
  with assms(1) have "applies_all buf (take i descs @ descs ! i # drop (Suc i) descs)" by simp
  then show a: "applies_all buf (take i descs)"
    and m: "\<not> misses (descs ! i) (snd (Apply buf (take i descs)))"
    by (simp_all add: applies_all_append)
  have "take (Suc i) descs = take i descs @ [descs ! i]"
    using assms(2) by (simp add: take_Suc_conv_app_nth)
  then have "Apply buf (take (Suc i) descs) = Apply (snd (Apply buf (take i descs))) [descs ! i]"
    using a by (simp add: Apply_append)
  with m show "snd (Apply buf (take (Suc i) descs)) = patched (descs ! i) (snd (Apply buf (take i descs)))"
    by (simp add: Apply_Cons del: Apply.simps(2))
qed

lemma Apply_outcome:
  "applies_all buf descs \<or>
   (\<exists>i<length descs. applies_all buf (take i descs)
      \<and> misses (descs ! i) (snd (Apply buf (take i descs))))"
proof (induction descs arbitrary: buf)
  case Nil
  show ?case by simp
next
  case (Cons d ds)
  show ?case
  proof (cases "misses d buf")
    case True
    then have "0 < length (d # ds) \<and> applies_all buf (take 0 (d # ds))
        \<and> misses ((d # ds) ! 0) (snd (Apply buf (take 0 (d # ds))))"
      by simp
    then show ?thesis by blast
  next
    case False
    from Cons.IH [of "patched d buf"] show ?thesis
    proof
      assume "applies_all (patched d buf) ds"
      with False show ?thesis by simp
    next
      assume "\<exists>i<length ds. applies_all (patched d buf) (take i ds)
          \<and> misses (ds ! i) (snd (Apply (patched d buf) (take i ds)))"
      then obtain i where i: "i < length ds" "applies_all (patched d buf) (take i ds)"
        "misses (ds ! i) (snd (Apply (patched d buf) (take i ds)))" by blast
      with False have "Suc i < length (d # ds) \<and> applies_all buf (take (Suc i) (d # ds))
          \<and> misses ((d # ds) ! Suc i) (snd (Apply buf (take (Suc i) (d # ds))))"
        by (simp add: Apply_Cons del: Apply.simps(2))
      then show ?thesis by blast
    qed
  qed
qed

lemma Apply_reported_miss:
  assumes "Apply buf descs = (tok, buf')" and "tok \<noteq> []"
  shows "\<exists>i<length descs. applies_all buf (take i descs)
      \<and> misses (descs ! i) (snd (Apply buf (take i descs)))
      \<and> tok = token (descs ! i) \<and> buf' = snd (Apply buf (take i descs))"
proof -
  from assms Apply_applies_all [of buf descs] have "\<not> applies_all buf descs" by auto
  with Apply_outcome [of buf descs] obtain i where i: "i < length descs"
    "applies_all buf (take i descs)" "misses (descs ! i) (snd (Apply buf (take i descs)))"
    by blast
  from Apply_first_miss [OF i] assms(1) i show ?thesis by auto
qed

text \<open>
  When no token of the list is empty, the view \<open>Apply\<close> returns is empty exactly when the
  loop ran through the whole list.
\<close>

lemma applies_all_iff_empty_view:
  assumes "\<forall>d\<in>set descs. token d \<noteq> []"
  shows "applies_all buf descs \<longleftrightarrow> fst (Apply buf descs) = []"
proof
  assume "applies_all buf descs"
  then show "fst (Apply buf descs) = []" by (rule Apply_applies_all)
next
  assume e: "fst (Apply buf descs) = []"
  show "applies_all buf descs"
  proof (rule ccontr)
    assume "\<not> applies_all buf descs"
    with Apply_outcome [of buf descs] obtain i where i: "i < length descs"
      "applies_all buf (take i descs)" "misses (descs ! i) (snd (Apply buf (take i descs)))"
      by blast
    from Apply_first_miss [OF i] e have "token (descs ! i) = []" by simp
    with assms i(1) show False by simp
  qed
qed

lemma replace_str_frame:
  assumes "pos + len \<le> length buf"
  shows "length (replace_str buf pos len r) = length buf - len + length r"
    and "\<forall>k<pos. replace_str buf pos len r ! k = buf ! k"
    and "\<forall>k. pos + len + k < length buf \<longrightarrow>
           replace_str buf pos len r ! (pos + length r + k) = buf ! (pos + len + k)"
proof -
  have l: "length (take pos buf) = pos" using assms by simp
  show "length (replace_str buf pos len r) = length buf - len + length r"
    using assms by (simp add: replace_str_def)
  show "\<forall>k<pos. replace_str buf pos len r ! k = buf ! k"
    using l by (simp add: replace_str_def nth_append)
  show "\<forall>k. pos + len + k < length buf \<longrightarrow>
           replace_str buf pos len r ! (pos + length r + k) = buf ! (pos + len + k)"
  proof (intro allI impI)
    fix k assume "pos + len + k < length buf"
    have "replace_str buf pos len r ! (pos + length r + k)
            = (take pos buf @ r @ drop (pos + len) buf) ! (length (take pos buf) + (length r + k))"
      using l by (simp add: replace_str_def add.assoc)
    also have "\<dots> = (r @ drop (pos + len) buf) ! (length r + k)"
      by (simp only: nth_append_length_plus)
    also have "\<dots> = drop (pos + len) buf ! k"
      by (simp only: nth_append_length_plus)
    also have "\<dots> = buf ! (pos + len + k)"
      using assms by simp
    finally show "replace_str buf pos len r ! (pos + length r + k) = buf ! (pos + len + k)" .
  qed
qed

section \<open>The driver's loop, case by case\<close>

lemma c_str_id: "CHR 0x00 \<notin> set s \<Longrightarrow> c_str s = s"
  by (auto simp: c_str_def takeWhile_eq_all_conv)

lemma main_loop_unread:
  "ReadFileUTF8 fs f = [] \<Longrightarrow>
   main_loop fs out ((f, descs) # rest) = (fs, out @ [msg_unreadable f], - 1)"
  by simp

lemma main_loop_miss:
  "ReadFileUTF8 fs f \<noteq> [] \<Longrightarrow> Apply (ReadFileUTF8 fs f) descs = (tok, buf) \<Longrightarrow> tok \<noteq> [] \<Longrightarrow>
   main_loop fs out ((f, descs) # rest) = (fs, out @ [msg_patch_miss f tok], - 1)"
  by simp

lemma main_loop_ok:
  "ReadFileUTF8 fs f \<noteq> [] \<Longrightarrow> Apply (ReadFileUTF8 fs f) descs = ([], buf) \<Longrightarrow>
   main_loop fs out ((f, descs) # rest) =
     main_loop (fst (WriteFileUTF8 fs f buf)) (out @ [msg_patched f]) rest"
  by (simp split: prod.splits)

lemma main_loop_cases:
  obtains (unread) "ReadFileUTF8 fs f = []"
  | (miss) tok buf where "ReadFileUTF8 fs f \<noteq> []" "Apply (ReadFileUTF8 fs f) descs = (tok, buf)" "tok \<noteq> []"
  | (ok) buf where "ReadFileUTF8 fs f \<noteq> []" "Apply (ReadFileUTF8 fs f) descs = ([], buf)"
  by (cases "Apply (ReadFileUTF8 fs f) descs") (metis (full_types))

lemma main_loop_append:
  "main_loop fs out xs = (fs1, out1, 0) \<Longrightarrow> main_loop fs out (xs @ ys) = main_loop fs1 out1 ys"
proof (induction xs arbitrary: fs out)
  case Nil
  then show ?case by simp
next
  case (Cons x xs)
  obtain f descs where x: "x = (f, descs)" by (cases x)
  show ?case
  proof (cases rule: main_loop_cases [where fs = fs and f = f and descs = descs])
    case unread
    with Cons.prems x show ?thesis by (simp del: main_loop.simps add: main_loop_unread)
  next
    case (miss tok buf)
    with Cons.prems x show ?thesis by (simp del: main_loop.simps add: main_loop_miss)
  next
    case (ok buf)
    with Cons.prems x Cons.IH show ?thesis by (simp del: main_loop.simps add: main_loop_ok)
  qed
qed

lemma WriteFileUTF8_files:
  "p \<noteq> c_str path \<Longrightarrow> files (fst (WriteFileUTF8 fs path contents)) p = files fs p"
  by (simp add: WriteFileUTF8_def)

lemma main_loop_files:
  "p \<notin> c_str ` fst ` set xs \<Longrightarrow> files (fst (main_loop fs out xs)) p = files fs p"
proof (induction xs arbitrary: fs out)
  case Nil
  then show ?case by simp
next
  case (Cons x xs)
  obtain f descs where x: "x = (f, descs)" by (cases x)
  from Cons.prems x have p: "p \<noteq> c_str f" "p \<notin> c_str ` fst ` set xs" by auto
  show ?case
  proof (cases rule: main_loop_cases [where fs = fs and f = f and descs = descs])
    case unread
    with x show ?thesis by (simp del: main_loop.simps add: main_loop_unread)
  next
    case (miss tok buf)
    with x show ?thesis by (simp del: main_loop.simps add: main_loop_miss)
  next
    case (ok buf)
    with x Cons.IH [OF p(2)] p(1) show ?thesis
      by (simp del: main_loop.simps add: main_loop_ok WriteFileUTF8_files)
  qed
qed

lemma main_loop_prefix:
  "prefix out (fst (snd (main_loop fs out xs)))"
proof (induction xs arbitrary: fs out)
  case Nil
  then show ?case by simp
next
  case (Cons x xs)
  obtain f descs where x: "x = (f, descs)" by (cases x)
  show ?case
  proof (cases rule: main_loop_cases [where fs = fs and f = f and descs = descs])
    case unread
    with x show ?thesis by (simp del: main_loop.simps add: main_loop_unread)
  next
    case (miss tok buf)
    with x show ?thesis by (simp del: main_loop.simps add: main_loop_miss)
  next
    case (ok buf)
    from Cons.IH [where fs = "fst (WriteFileUTF8 fs f buf)" and out = "out @ [msg_patched f]"]
    have "prefix out (fst (snd (main_loop (fst (WriteFileUTF8 fs f buf)) (out @ [msg_patched f]) xs)))"
      by (rule append_prefixD)
    with ok x show ?thesis by (simp del: main_loop.simps add: main_loop_ok)
  qed
qed

section \<open>The function body locator on two buffers\<close>

text \<open>
  Claim C1. The claim expects \<open>Apply\<close> to succeed whenever the anchor occurs and the
  depth returns to zero, and names the buffer \<^verbatim>\<open>function g() { {{}} }\<close> with
  \<^verbatim>\<open>ExplicitFunction{token:"g", replacement:"{}"}\<close>, result \<^verbatim>\<open>function g() {}\<close>.
  On that buffer the brace that closes the body is the last byte, so the loop leaves
  \<^verbatim>\<open>end\<close> equal to the size of the buffer; the test \<^verbatim>\<open>end == haystack.size()\<close> then
  takes the body it has found for a scan that ran off the buffer. \<open>Apply\<close> returns the
  token \<^verbatim>\<open>g\<close> and the buffer is as it was.
\<close>

theorem Apply_nested_braces_at_end_of_buffer:
  "Apply ''function g() { {{}} }'' [\<lparr>type = ExplicitFunction, token = ''g'', replacement = ''{}''\<rparr>]
     = (''g'', ''function g() { {{}} }'')"
  by code_simp

text \<open>
  Claim C2. The claim has the depth counter start at the opening brace, so that a
  \<^verbatim>\<open>}\<close> between the anchor and the first \<^verbatim>\<open>{\<close> has no effect. The loop counts from
  the anchor. In the buffer below the parameter has a default value that is a template
  literal holding \<^verbatim>\<open>}\<close>: that byte takes the unsigned counter from 0 to its largest
  value, the first \<^verbatim>\<open>{\<close> brings it back to 0, and the scan stops there with a body of
  one byte. Only that \<^verbatim>\<open>{\<close> is replaced; the span of the claim, \<^verbatim>\<open>{a}\<close>, would leave
  \<^verbatim>\<open>b\<close> right after the replacement.
\<close>

theorem Apply_closing_brace_before_body:
  "Apply ''function g(a=`}`){a}b'' [\<lparr>type = ExplicitFunction, token = ''g'', replacement = ''{}''\<rparr>]
     = ([], ''function g(a=`}`){}a}b'')"
  by code_simp

section \<open>Reading a file with a zero byte\<close>

text \<open>
  Claim C3. The claim has every byte of the file, zero bytes included, in the buffer.
  \<^verbatim>\<open>ReadFileUTF8\<close> builds its result from a \<^verbatim>\<open>const char *\<close>, which ends at the first
  zero byte: of a file holding the three bytes \<^verbatim>\<open>a\<close>, 0, \<^verbatim>\<open>b\<close> the buffer holds the
  first only.
\<close>

theorem ReadFileUTF8_stops_at_NUL:
  "ReadFileUTF8 \<lparr>path_exists = (\<lambda>p. True), files = [''f'' \<mapsto> [CHR ''a'', CHR 0x00, CHR ''b'']],
      writable = (\<lambda>p. True)\<rparr> ''f'' = ''a''"
  by (simp add: ReadFileUTF8_def c_str_def)

section \<open>Stopping at the first descriptor that misses\<close>

text \<open>
  Claim C4. If descriptor \<open>i\<close> is the first that fails to match (descriptors \<open>0..i-1\<close>
  all applied, descriptor \<open>i\<close> misses on the buffer they leave), then \<open>Apply\<close> returns
  the token of descriptor \<open>i\<close> as it is, the buffer is the one descriptors \<open>0..i-1\<close>
  left, and the descriptors after \<open>i\<close> play no part: the outcome is that of the list cut
  after descriptor \<open>i\<close>.
\<close>

theorem Apply_fails_fast:
  assumes "i < length descs"
    and "applies_all buf (take i descs)"
    and "misses (descs ! i) (snd (Apply buf (take i descs)))"
  shows "Apply buf descs = (token (descs ! i), snd (Apply buf (take i descs)))
         \<and> Apply buf descs = Apply buf (take (Suc i) descs)"
proof -
  have a: "Apply buf descs = (token (descs ! i), snd (Apply buf (take i descs)))"
    using assms by (rule Apply_first_miss)
  have "take i (take (Suc i) descs) = take i descs" "take (Suc i) descs ! i = descs ! i"
    "i < length (take (Suc i) descs)"
    using assms(1) by (simp_all add: min_def)
  with Apply_first_miss [of i "take (Suc i) descs" buf] assms(2,3)
  have "Apply buf (take (Suc i) descs) = (token (descs ! i), snd (Apply buf (take i descs)))"
    by simp
  with a show ?thesis by simp
qed

text \<open>
  The instance of the claim: the list \<^verbatim>\<open>A/A1\<close>, \<^verbatim>\<open>Z/Z1\<close>, \<^verbatim>\<open>B/B1\<close> on the buffer
  \<^verbatim>\<open>AB\<close> fails at index 1 with token \<^verbatim>\<open>Z\<close> and leaves \<^verbatim>\<open>A1B\<close>.
\<close>

theorem Apply_fails_fast_witness:
  "Apply ''AB'' [\<lparr>type = ReplaceOne, token = ''A'', replacement = ''A1''\<rparr>,
                 \<lparr>type = ReplaceOne, token = ''Z'', replacement = ''Z1''\<rparr>,
                 \<lparr>type = ReplaceOne, token = ''B'', replacement = ''B1''\<rparr>] = (''Z'', ''A1B'')"
proof -
  let ?ds = "[\<lparr>type = ReplaceOne, token = ''A'', replacement = ''A1''\<rparr>,
              \<lparr>type = ReplaceOne, token = ''Z'', replacement = ''Z1''\<rparr>,
              \<lparr>type = ReplaceOne, token = ''B'', replacement = ''B1''\<rparr>]"
  have h1: "1 < length ?ds" by simp
  have h2: "applies_all ''AB'' (take 1 ?ds)" by code_simp
  have h3: "misses (?ds ! 1) (snd (Apply ''AB'' (take 1 ?ds)))" by code_simp
  have v: "token (?ds ! 1) = ''Z''" "snd (Apply ''AB'' (take 1 ?ds)) = ''A1B''" by code_simp+
  from Apply_fails_fast [OF h1 h2 h3] show ?thesis unfolding v by simp
qed

section \<open>Replacing the first occurrence\<close>

text \<open>
  Claim C5, as it is worded, fails on two kinds of input. With token \<^verbatim>\<open>X\<close> and
  replacement \<^verbatim>\<open>XY\<close> on \<^verbatim>\<open>aXbXc\<close> the second application finds the \<^verbatim>\<open>X\<close> that
  the first one wrote, not the occurrence that was at position 3, which is never
  replaced. With token \<^verbatim>\<open>aa\<close> on \<^verbatim>\<open>aaa\<close> the occurrence at position 1 overlaps the
  one at position 0 and is gone after the first application, so the second fails.
\<close>

theorem first_match_counterexample:
  "occurrences ''X'' ''aXbXc'' = [1, 3]
   \<and> \<not> first_match_as_claimed ''aXbXc'' ''X'' ''XY''
   \<and> Apply ''aXbXc'' [\<lparr>type = ReplaceOne, token = ''X'', replacement = ''XY''\<rparr>,
                        \<lparr>type = ReplaceOne, token = ''X'', replacement = ''XY''\<rparr>] = ([], ''aXYYbXc'')
   \<and> occurrences ''aa'' ''aaa'' = [0, 1]
   \<and> \<not> first_match_as_claimed ''aaa'' ''aa'' ''b''
   \<and> Apply ''aaa'' [\<lparr>type = ReplaceOne, token = ''aa'', replacement = ''b''\<rparr>,
                      \<lparr>type = ReplaceOne, token = ''aa'', replacement = ''b''\<rparr>] = (''aa'', ''ba'')"
  by code_simp

text \<open>
  Claim C5, amended. Let the token \<open>t\<close> occur first at \<open>length pre\<close> in the buffer
  \<open>pre @ t @ post\<close>. One application replaces exactly that occurrence: the result is
  \<open>pre @ r @ post\<close>, so every byte outside the occurrence stays, and every occurrence
  that lies in \<open>post\<close> (one that does not overlap the first) is still there, moved by the
  difference of the lengths. A second application searches the result from its start
  and replaces the first occurrence it finds there; this is the next occurrence of the
  original buffer, \<open>post = mid @ t @ post'\<close>, when the result has no occurrence before it,
  and then both are replaced. The second application fails, with the token, when the
  result has no occurrence at all.
\<close>

theorem ReplaceOne_first_match:
  assumes "type d = ReplaceOne" and "token d = t" and "replacement d = r"
    and "\<forall>k<length pre. \<not> occurs_at t (pre @ t @ post) k"
  shows "Apply (pre @ t @ post) [d] = ([], pre @ r @ post)
    \<and> (\<forall>p. occurs_at t post p \<longrightarrow> occurs_at t (pre @ r @ post) (length pre + length r + p))
    \<and> (\<forall>q. occurs_at t (pre @ r @ post) q \<and> (\<forall>k<q. \<not> occurs_at t (pre @ r @ post) k) \<longrightarrow>
          Apply (pre @ t @ post) [d, d] = ([], replace_str (pre @ r @ post) q (length t) r))
    \<and> (\<forall>mid post'. post = mid @ t @ post'
          \<and> (\<forall>k<length pre + length r + length mid. \<not> occurs_at t (pre @ r @ post) k) \<longrightarrow>
          Apply (pre @ t @ post) [d, d] = ([], pre @ r @ mid @ r @ post'))
    \<and> ((\<forall>k. \<not> occurs_at t (pre @ r @ post) k) \<longrightarrow>
          Apply (pre @ t @ post) [d, d] = (t, pre @ r @ post))"
proof -
  let ?B = "pre @ t @ post" and ?B1 = "pre @ r @ post"
  have "occurs_at t ?B (length pre)" by (simp add: occurs_at_def)
  with assms(4) have f: "find_str ?B t = Some (length pre)" by (simp add: find_str_occurs)
  have rep: "replace_str ?B (length pre) (length t) r = ?B1" by (simp add: replace_str_def)
  have one: "Apply ?B (d # ds) = Apply ?B1 ds" for ds
    using assms(1,2,3) f rep by simp
  have c1: "Apply ?B [d] = ([], ?B1)" by (simp add: one del: Apply.simps(2))
  have c2: "occurs_at t ?B1 (length pre + length r + p)" if "occurs_at t post p" for p
    using that by (simp add: occurs_at_def add.assoc)
  have c3: "Apply ?B [d, d] = ([], replace_str ?B1 q (length t) r)"
    if "occurs_at t ?B1 q" "\<forall>k<q. \<not> occurs_at t ?B1 k" for q
  proof -
    from that have "find_str ?B1 t = Some q" by (simp add: find_str_occurs)
    with assms(1,2,3) have "Apply ?B1 [d] = ([], replace_str ?B1 q (length t) r)" by simp
    then show ?thesis by (simp add: one del: Apply.simps(2))
  qed
  have c4: "Apply ?B [d, d] = ([], pre @ r @ mid @ r @ post')"
    if "post = mid @ t @ post'" "\<forall>k<length pre + length r + length mid. \<not> occurs_at t ?B1 k"
    for mid post'
  proof -
    let ?q = "length pre + length r + length mid"
    have "occurs_at t ?B1 ?q" using that(1) by (simp add: occurs_at_def add.assoc)
    from c3 [OF this that(2)] have "Apply ?B [d, d] = ([], replace_str ?B1 ?q (length t) r)" .
    moreover have "replace_str ?B1 ?q (length t) r = pre @ r @ mid @ r @ post'"
      using that(1) by (simp add: replace_str_def add.assoc)
    ultimately show ?thesis by simp
  qed
  have c5: "Apply ?B [d, d] = (t, ?B1)" if "\<forall>k. \<not> occurs_at t ?B1 k"
  proof -
    from that have "find_str ?B1 t = None" by (simp add: find_str_None_iff)
    with assms(1,2) have "Apply ?B1 [d] = (t, ?B1)" by simp
    then show ?thesis by (simp add: one del: Apply.simps(2))
  qed
  from c1 c2 c3 c4 c5 show ?thesis by blast
qed

text \<open>
  The instance of the claim: token \<^verbatim>\<open>X\<close>, replacement \<^verbatim>\<open>YY\<close>, buffer \<^verbatim>\<open>aXbXc\<close>.
\<close>

theorem ReplaceOne_first_match_witness:
  "Apply ''aXbXc'' [\<lparr>type = ReplaceOne, token = ''X'', replacement = ''YY''\<rparr>] = ([], ''aYYbXc'')
   \<and> Apply ''aXbXc'' [\<lparr>type = ReplaceOne, token = ''X'', replacement = ''YY''\<rparr>,
                        \<lparr>type = ReplaceOne, token = ''X'', replacement = ''YY''\<rparr>] = ([], ''aYYbYYc'')"
proof -
  let ?d = "\<lparr>type = ReplaceOne, token = ''X'', replacement = ''YY''\<rparr>"
  have f1: "find_str ''aXbXc'' ''X'' = Some 1" by code_simp
  have "\<forall>k<1. \<not> occurs_at ''X'' ''aXbXc'' k"
    using f1 [unfolded find_str_occurs] by (rule conjunct2)
  then have h1: "\<forall>k<length ''a''. \<not> occurs_at ''X'' (''a'' @ ''X'' @ ''bXc'') k"
    by simp
  have f2: "find_str ''aYYbXc'' ''X'' = Some 4" by code_simp
  have "\<forall>k<4. \<not> occurs_at ''X'' ''aYYbXc'' k"
    using f2 [unfolded find_str_occurs] by (rule conjunct2)
  then have h2: "\<forall>k<length ''a'' + length ''YY'' + length ''b''.
      \<not> occurs_at ''X'' (''a'' @ ''YY'' @ ''bXc'') k"
    by simp
  have t: "type ?d = ReplaceOne" "token ?d = ''X''" "replacement ?d = ''YY''" by simp_all
  note m = ReplaceOne_first_match [OF t h1]
  have s: "''bXc'' = ''b'' @ ''X'' @ ''c''" by simp
  from m [THEN conjunct1]
  have one: "Apply ''aXbXc'' [?d] = ([], ''aYYbXc'')" by simp
  have "Apply (''a'' @ ''X'' @ ''bXc'') [?d, ?d] = ([], ''a'' @ ''YY'' @ ''b'' @ ''YY'' @ ''c'')"
    by (rule m [THEN conjunct2, THEN conjunct2, THEN conjunct2, THEN conjunct1, rule_format,
          of "''b''" "''c''"]) (rule conjI [OF s h2])
  then have two: "Apply ''aXbXc'' [?d, ?d] = ([], ''aYYbYYc'')" by simp
  from one two show ?thesis by (rule conjI)
qed

section \<open>What a successful run changes\<close>

text \<open>
  Claim C6. Let \<open>Apply\<close> succeed on \<open>buf\<close> and \<open>descs\<close>, that is, run through the whole
  list. Then it returns the empty view, and each descriptor \<open>i\<close> performs one substring
  substitution: with \<open>B\<close> the buffer before it and \<open>B'\<close> the buffer after it, the span
  \<open>(pos, len)\<close> it replaces lies inside \<open>B\<close>, \<open>B'\<close> is \<open>B\<close> with that span replaced by the
  replacement of the descriptor, and every byte of \<open>B\<close> outside the span is in \<open>B'\<close>
  unchanged: those before the span at the same index, those after it moved by the
  difference of the lengths.
\<close>

theorem Apply_success_frame:
  assumes "applies_all buf descs" and "i < length descs"
    and "B = snd (Apply buf (take i descs))" and "B' = snd (Apply buf (take (Suc i) descs))"
    and "span (descs ! i) B = (pos, len)" and "r = replacement (descs ! i)"
  shows "fst (Apply buf descs) = []
    \<and> snd (Apply buf descs) = snd (Apply buf (take (length descs) descs))
    \<and> pos + len \<le> length B
    \<and> B' = take pos B @ r @ drop (pos + len) B
    \<and> length B' = length B - len + length r
    \<and> (\<forall>k<pos. B' ! k = B ! k)
    \<and> (\<forall>k. pos + len + k < length B \<longrightarrow> B' ! (pos + length r + k) = B ! (pos + len + k))"
proof -
  note st = applies_all_step [OF assms(1,2)]
  have b: "pos + len \<le> length B" using st(2) assms(3,5) by (simp add: span_in_bounds)
  have p: "B' = replace_str B pos len r"
    using st(3) assms(3,4,5,6) by (simp add: patched_def)
  have "fst (Apply buf descs) = []" using assms(1) by (rule Apply_applies_all)
  moreover have "B' = take pos B @ r @ drop (pos + len) B" using p by (simp add: replace_str_def)
  moreover note b replace_str_frame [OF b, where r = r, folded p]
  ultimately show ?thesis by simp
qed

text \<open>
  A run with one descriptor of each kind.
\<close>

theorem Apply_success_frame_witness:
  "applies_all ''aX function f() {x} y''
     [\<lparr>type = ReplaceOne, token = ''X'', replacement = ''YY''\<rparr>,
      \<lparr>type = ExplicitFunction, token = ''f'', replacement = ''{}''\<rparr>]
   \<and> snd (Apply ''aX function f() {x} y'' [\<lparr>type = ReplaceOne, token = ''X'', replacement = ''YY''\<rparr>])
       = ''aYY function f() {x} y''
   \<and> span \<lparr>type = ExplicitFunction, token = ''f'', replacement = ''{}''\<rparr> ''aYY function f() {x} y''
       = (17, 3)
   \<and> snd (Apply ''aX function f() {x} y''
       [\<lparr>type = ReplaceOne, token = ''X'', replacement = ''YY''\<rparr>,
        \<lparr>type = ExplicitFunction, token = ''f'', replacement = ''{}''\<rparr>])
       = ''aYY function f() '' @ ''{}'' @ '' y''"
proof -
  let ?ds = "[\<lparr>type = ReplaceOne, token = ''X'', replacement = ''YY''\<rparr>,
              \<lparr>type = ExplicitFunction, token = ''f'', replacement = ''{}''\<rparr>]"
  let ?buf = "''aX function f() {x} y''"
  have h1: "applies_all ?buf ?ds" by code_simp
  have h2: "1 < length ?ds" by simp
  have h3: "''aYY function f() {x} y'' = snd (Apply ?buf (take 1 ?ds))" by code_simp
  have h5: "span (?ds ! 1) ''aYY function f() {x} y'' = (17, 3)" by code_simp
  have h6: "''{}'' = replacement (?ds ! 1)" by simp
  have t2: "take (Suc 1) ?ds = ?ds" by simp
  note m = Apply_success_frame [OF h1 h2 h3 refl h5 h6, unfolded t2]
  from m [THEN conjunct2, THEN conjunct2, THEN conjunct2, THEN conjunct1]
  have c: "snd (Apply ?buf ?ds) = ''aYY function f() '' @ ''{}'' @ '' y''" by simp
  from h3 have a: "snd (Apply ?buf [\<lparr>type = ReplaceOne, token = ''X'', replacement = ''YY''\<rparr>])
      = ''aYY function f() {x} y''" by simp
  from h5 have b: "span \<lparr>type = ExplicitFunction, token = ''f'', replacement = ''{}''\<rparr>
      ''aYY function f() {x} y'' = (17, 3)" by simp
  from h1 a b c show ?thesis by (intro conjI)
qed

section \<open>The empty token\<close>

text \<open>
  Claim C8. A \<open>ReplaceOne\<close> descriptor with the empty token succeeds on every buffer:
  the search finds the empty string at position 0, and the replacement is inserted in
  front of the buffer, whose bytes all follow it unchanged.
\<close>

theorem ReplaceOne_empty_token:
  "find_str buf [] = Some 0
   \<and> Apply buf [\<lparr>type = ReplaceOne, token = [], replacement = r\<rparr>] = ([], r @ buf)
   \<and> Apply buf (\<lparr>type = ReplaceOne, token = [], replacement = r\<rparr> # descs) = Apply (r @ buf) descs"
proof -
  have "find_str buf [] = Some 0" by (cases buf) simp_all
  then show ?thesis by (simp add: replace_str_def)
qed

section \<open>The driver on a patch miss\<close>

text \<open>
  Claim C7. Take a run that reaches the file \<open>f\<close> (the directory exists, the files
  \<open>pre\<close> before it were processed without error, \<open>f\<close> is none of them) and on which
  the engine reports a miss: \<open>Apply\<close> returns a non-empty view \<open>tok\<close>. Then the run ends
  there with status \<open>-1\<close>; the last line printed is the patch-miss message with the
  path and the token, each as \<^verbatim>\<open>printf("%s")\<close> prints it; \<open>tok\<close> is the token of the
  first descriptor that missed; and the bytes of \<open>f\<close> in the file system are the ones
  it had before the run, the partially patched buffer not being written.
\<close>

theorem main_patch_miss:
  assumes "path_exists fs unpacked"
    and "main_loop fs [] pre = (fs1, out1, 0)"
    and "c_str f \<notin> c_str ` fst ` set pre"
    and "ReadFileUTF8 fs1 f \<noteq> []"
    and "Apply (ReadFileUTF8 fs1 f) descs = (tok, buf)"
    and "tok \<noteq> []"
  shows "main fs unpacked (pre @ (f, descs) # rest) = (fs1, out1 @ [msg_patch_miss f tok], - 1)
    \<and> snd (snd (main fs unpacked (pre @ (f, descs) # rest))) \<noteq> 0
    \<and> files (fst (main fs unpacked (pre @ (f, descs) # rest))) (c_str f) = files fs (c_str f)
    \<and> (\<exists>i<length descs. applies_all (ReadFileUTF8 fs1 f) (take i descs)
          \<and> misses (descs ! i) (snd (Apply (ReadFileUTF8 fs1 f) (take i descs)))
          \<and> tok = token (descs ! i))
    \<and> (CHR 0x00 \<notin> set f \<and> CHR 0x00 \<notin> set tok \<longrightarrow>
          msg_patch_miss f tok =
            ''Unable to apply all patches to file:('' @ f @ ''), token:('' @ tok @ '')'' @ [CHR 0x0A])"
proof -
  have "main fs unpacked (pre @ (f, descs) # rest) = main_loop fs1 out1 ((f, descs) # rest)"
    using assms(1) main_loop_append [OF assms(2)] by (simp add: main_def)
  also have "\<dots> = (fs1, out1 @ [msg_patch_miss f tok], - 1)"
    using assms(4,5,6) by (rule main_loop_miss)
  finally have m: "main fs unpacked (pre @ (f, descs) # rest)
      = (fs1, out1 @ [msg_patch_miss f tok], - 1)" .
  have "files (fst (main_loop fs [] pre)) (c_str f) = files fs (c_str f)"
    using assms(3) by (rule main_loop_files)
  with assms(2) have k: "files fs1 (c_str f) = files fs (c_str f)" by simp
  from Apply_reported_miss [OF assms(5,6)]
  have t: "\<exists>i<length descs. applies_all (ReadFileUTF8 fs1 f) (take i descs)
          \<and> misses (descs ! i) (snd (Apply (ReadFileUTF8 fs1 f) (take i descs)))
          \<and> tok = token (descs ! i)" by blast
  have "msg_patch_miss f tok =
      ''Unable to apply all patches to file:('' @ f @ ''), token:('' @ tok @ '')'' @ [CHR 0x0A]"
    if "CHR 0x00 \<notin> set f \<and> CHR 0x00 \<notin> set tok"
    using that by (simp add: msg_patch_miss_def c_str_id)
  with m k t show ?thesis by simp
qed

text \<open>
  A run over two files: the first is patched and written, the second misses on its
  second descriptor and keeps its bytes.
\<close>

theorem main_patch_miss_witness:
  "main \<lparr>path_exists = (\<lambda>p. True), files = [''f'' \<mapsto> ''abc'', ''g'' \<mapsto> ''a''], writable = (\<lambda>p. True)\<rparr>
      ''d''
      [(''g'', [\<lparr>type = ReplaceOne, token = ''a'', replacement = ''b''\<rparr>]),
       (''f'', [\<lparr>type = ReplaceOne, token = ''b'', replacement = ''B''\<rparr>,
                \<lparr>type = ReplaceOne, token = ''Z'', replacement = ''!''\<rparr>])]
    = (\<lparr>path_exists = (\<lambda>p. True), files = [''f'' \<mapsto> ''abc'', ''g'' \<mapsto> ''b''], writable = (\<lambda>p. True)\<rparr>,
       [''Patched file:(g)'' @ [CHR 0x0A],
        ''Unable to apply all patches to file:(f), token:(Z)'' @ [CHR 0x0A]], - 1)"
proof -
  let ?fs = "\<lparr>path_exists = (\<lambda>p. True), files = [''f'' \<mapsto> ''abc'', ''g'' \<mapsto> ''a''],
      writable = (\<lambda>p. True)\<rparr>"
  let ?fs1 = "\<lparr>path_exists = (\<lambda>p. True), files = [''f'' \<mapsto> ''abc'', ''g'' \<mapsto> ''b''],
      writable = (\<lambda>p. True)\<rparr>"
  let ?pre = "[(''g'', [\<lparr>type = ReplaceOne, token = ''a'', replacement = ''b''\<rparr>])]"
  let ?descs = "[\<lparr>type = ReplaceOne, token = ''b'', replacement = ''B''\<rparr>,
                 \<lparr>type = ReplaceOne, token = ''Z'', replacement = ''!''\<rparr>]"
  have e: "[''f'' \<mapsto> ''abc'', ''g'' \<mapsto> ''a''](''g'' \<mapsto> ''b'') = [''f'' \<mapsto> ''abc'', ''g'' \<mapsto> ''b'']"
    by simp
  have h1: "path_exists ?fs ''d''" by simp
  have h2: "main_loop ?fs [] ?pre = (?fs1, [msg_patched ''g''], 0)"
    by (simp add: ReadFileUTF8_def WriteFileUTF8_def c_str_def replace_str_def e)
  have h3: "c_str ''f'' \<notin> c_str ` fst ` set ?pre" by (simp add: c_str_def)
  have h4: "ReadFileUTF8 ?fs1 ''f'' \<noteq> []" by (simp add: ReadFileUTF8_def c_str_def)
  have h5: "Apply (ReadFileUTF8 ?fs1 ''f'') ?descs = (''Z'', ''aBc'')"
    by (simp add: ReadFileUTF8_def c_str_def replace_str_def)
  have h6: "''Z'' \<noteq> []" by simp
  from main_patch_miss [OF h1 h2 h3 h4 h5 h6, of "[]", THEN conjunct1]
  show ?thesis by (simp add: msg_patched_def msg_patch_miss_def c_str_def)
qed

section \<open>A miss that looks like success\<close>

text \<open>
  Claim C9. \<open>Apply\<close> returns the empty view when it has run through the whole list, and
  the token of the first descriptor that misses otherwise. So when that descriptor is
  an \<open>ExplicitFunction\<close> with the empty token, missing because the anchor
  \<^verbatim>\<open>function (\<close> is not in the buffer, the view returned is empty, as on success,
  though the descriptors after it were not applied. The driver then takes the file for
  patched: it writes the buffer as the descriptors before the miss left it and prints
  the success line.
\<close>

theorem empty_token_miss_passes_for_success:
  "(applies_all buf descs \<longrightarrow> fst (Apply buf descs) = [])
   \<and> (i < length descs \<and> applies_all buf (take i descs)
        \<and> misses (descs ! i) (snd (Apply buf (take i descs))) \<longrightarrow>
        fst (Apply buf descs) = token (descs ! i))
   \<and> (applies_all buf ds1 \<and> find_str (snd (Apply buf ds1)) ''function ('' = None \<longrightarrow>
        misses \<lparr>type = ExplicitFunction, token = [], replacement = r\<rparr> (snd (Apply buf ds1))
        \<and> Apply buf (ds1 @ \<lparr>type = ExplicitFunction, token = [], replacement = r\<rparr> # ds2)
            = ([], snd (Apply buf ds1)))
   \<and> (path_exists fs unpacked \<and> ReadFileUTF8 fs f \<noteq> [] \<and> applies_all (ReadFileUTF8 fs f) ds1
        \<and> find_str (snd (Apply (ReadFileUTF8 fs f) ds1)) ''function ('' = None \<longrightarrow>
        main fs unpacked
            ((f, ds1 @ \<lparr>type = ExplicitFunction, token = [], replacement = r\<rparr> # ds2) # rest)
          = main_loop (fst (WriteFileUTF8 fs f (snd (Apply (ReadFileUTF8 fs f) ds1))))
              [msg_patched f] rest)"
proof -
  let ?E = "\<lparr>type = ExplicitFunction, token = [], replacement = r\<rparr>"
  have a: "fst (Apply buf descs) = []" if "applies_all buf descs"
    using that by (rule Apply_applies_all)
  have b: "fst (Apply buf descs) = token (descs ! i)"
    if "i < length descs \<and> applies_all buf (take i descs)
        \<and> misses (descs ! i) (snd (Apply buf (take i descs)))"
    using that Apply_first_miss [of i descs buf] by simp
  have m: "misses ?E b" if "find_str b ''function ('' = None" for b
    using that by (simp add: misses_def FindExplicitFunctionBody_def)
  have c: "Apply b (ds1 @ ?E # ds2) = ([], snd (Apply b ds1))"
    if "applies_all b ds1" "find_str (snd (Apply b ds1)) ''function ('' = None" for b
    using m [OF that(2)] by (simp add: Apply_append [OF that(1)] Apply_Cons del: Apply.simps(2))
  have d: "main fs unpacked ((f, ds1 @ ?E # ds2) # rest)
          = main_loop (fst (WriteFileUTF8 fs f (snd (Apply (ReadFileUTF8 fs f) ds1))))
              [msg_patched f] rest"
    if "path_exists fs unpacked \<and> ReadFileUTF8 fs f \<noteq> [] \<and> applies_all (ReadFileUTF8 fs f) ds1
        \<and> find_str (snd (Apply (ReadFileUTF8 fs f) ds1)) ''function ('' = None"
  proof -
    from that c have "Apply (ReadFileUTF8 fs f) (ds1 @ ?E # ds2)
        = ([], snd (Apply (ReadFileUTF8 fs f) ds1))" by simp
    from main_loop_ok [OF _ this, of "[]" rest] that show ?thesis by (simp add: main_def)
  qed
  from a b m c d show ?thesis by blast
qed

text \<open>
  A list of three descriptors whose second one misses with the empty token: the view is
  empty, the third descriptor is not applied, and the driver writes the buffer.
\<close>

theorem empty_token_miss_passes_for_success_witness:
  "Apply ''aXc'' [\<lparr>type = ReplaceOne, token = ''X'', replacement = ''b''\<rparr>,
                  \<lparr>type = ExplicitFunction, token = [], replacement = ''{}''\<rparr>,
                  \<lparr>type = ReplaceOne, token = ''c'', replacement = ''C''\<rparr>] = ([], ''abc'')
   \<and> main \<lparr>path_exists = (\<lambda>p. True), files = [''f'' \<mapsto> ''aXc''], writable = (\<lambda>p. True)\<rparr>
        ''d'' [(''f'', [\<lparr>type = ReplaceOne, token = ''X'', replacement = ''b''\<rparr>,
                        \<lparr>type = ExplicitFunction, token = [], replacement = ''{}''\<rparr>,
                        \<lparr>type = ReplaceOne, token = ''c'', replacement = ''C''\<rparr>])]
      = (\<lparr>path_exists = (\<lambda>p. True), files = [''f'' \<mapsto> ''abc''], writable = (\<lambda>p. True)\<rparr>,
         [''Patched file:(f)'' @ [CHR 0x0A]], 0)"
proof -
  let ?fs = "\<lparr>path_exists = (\<lambda>p. True), files = [''f'' \<mapsto> ''aXc''], writable = (\<lambda>p. True)\<rparr>"
  let ?ds1 = "[\<lparr>type = ReplaceOne, token = ''X'', replacement = ''b''\<rparr>]"
  let ?ds2 = "[\<lparr>type = ReplaceOne, token = ''c'', replacement = ''C''\<rparr>]"
  let ?E = "\<lparr>type = ExplicitFunction, token = [], replacement = ''{}''\<rparr>"
  have r: "ReadFileUTF8 ?fs ''f'' = ''aXc''" by (simp add: ReadFileUTF8_def c_str_def)
  have h1: "path_exists ?fs ''d''" by simp
  have h2: "ReadFileUTF8 ?fs ''f'' \<noteq> []" by (simp add: r)
  have a: "applies_all ''aXc'' ?ds1" by code_simp
  have s: "snd (Apply ''aXc'' ?ds1) = ''abc''" by code_simp
  have n: "find_str (snd (Apply ''aXc'' ?ds1)) ''function ('' = None" by code_simp
  have a': "applies_all (ReadFileUTF8 ?fs ''f'') ?ds1" using a by (simp only: r)
  have n': "find_str (snd (Apply (ReadFileUTF8 ?fs ''f'') ?ds1)) ''function ('' = None"
    using n by (simp only: r)
  note m = empty_token_miss_passes_for_success
    [of "''aXc''" _ _ ?ds1 "''{}''" ?ds2 ?fs "''d''" "''f''" "[]"]
  from m [THEN conjunct2, THEN conjunct2, THEN conjunct1, THEN mp, OF conjI [OF a n],
      THEN conjunct2]
  have "Apply ''aXc'' (?ds1 @ ?E # ?ds2) = ([], ''abc'')" by (simp only: s)
  then have one: "Apply ''aXc'' [\<lparr>type = ReplaceOne, token = ''X'', replacement = ''b''\<rparr>, ?E,
      \<lparr>type = ReplaceOne, token = ''c'', replacement = ''C''\<rparr>] = ([], ''abc'')"
    by (simp only: append.simps)
  from m [THEN conjunct2, THEN conjunct2, THEN conjunct2, THEN mp,
      OF conjI [OF h1 conjI [OF h2 conjI [OF a' n']]]]
  have "main ?fs ''d'' [(''f'', ?ds1 @ ?E # ?ds2)]
      = main_loop (fst (WriteFileUTF8 ?fs ''f'' ''abc'')) [msg_patched ''f''] []"
    by (simp only: r s)
  then have two: "main ?fs ''d''
      [(''f'', [\<lparr>type = ReplaceOne, token = ''X'', replacement = ''b''\<rparr>, ?E,
                \<lparr>type = ReplaceOne, token = ''c'', replacement = ''C''\<rparr>])]
      = (\<lparr>path_exists = (\<lambda>p. True), files = [''f'' \<mapsto> ''abc''], writable = (\<lambda>p. True)\<rparr>,
         [''Patched file:(f)'' @ [CHR 0x0A]], 0)"
    by (simp add: WriteFileUTF8_def msg_patched_def c_str_def del: Apply.simps)
  from one two show ?thesis by (rule conjI)
qed

section \<open>The driver on a failed write\<close>

text \<open>
  Claim C10. Take a run that reaches the file \<open>f\<close>, reads it and patches it with
  success, and let \<^verbatim>\<open>WriteFileUTF8\<close> fail, returning false. The driver goes on as after
  a write that worked: it prints the success line for \<open>f\<close> and processes the remaining
  files, so the exit status is 0 if none of them fails, and it is 0 when \<open>f\<close> is the
  last file.
\<close>

theorem main_ignores_write_result:
  assumes "path_exists fs unpacked"
    and "main_loop fs [] pre = (fs1, out1, 0)"
    and "ReadFileUTF8 fs1 f \<noteq> []"
    and "Apply (ReadFileUTF8 fs1 f) descs = ([], buf)"
    and "WriteFileUTF8 fs1 f buf = (fs2, False)"
  shows "main fs unpacked (pre @ (f, descs) # rest) = main_loop fs2 (out1 @ [msg_patched f]) rest
    \<and> prefix (out1 @ [msg_patched f]) (fst (snd (main fs unpacked (pre @ (f, descs) # rest))))
    \<and> (snd (snd (main_loop fs2 (out1 @ [msg_patched f]) rest)) = 0 \<longrightarrow>
          snd (snd (main fs unpacked (pre @ (f, descs) # rest))) = 0)
    \<and> main fs unpacked (pre @ [(f, descs)]) = (fs2, out1 @ [msg_patched f], 0)"
proof -
  have step: "main fs unpacked (pre @ (f, descs) # more)
      = main_loop fs2 (out1 @ [msg_patched f]) more" for more
  proof -
    have "main fs unpacked (pre @ (f, descs) # more) = main_loop fs1 out1 ((f, descs) # more)"
      using assms(1) main_loop_append [OF assms(2)] by (simp add: main_def)
    also have "\<dots> = main_loop (fst (WriteFileUTF8 fs1 f buf)) (out1 @ [msg_patched f]) more"
      using assms(3,4) by (rule main_loop_ok)
    finally show ?thesis using assms(5) by simp
  qed
  have "prefix (out1 @ [msg_patched f]) (fst (snd (main_loop fs2 (out1 @ [msg_patched f]) rest)))"
    by (rule main_loop_prefix)
  with step [of rest] step [of "[]"] show ?thesis by simp
qed

text \<open>
  A file system on which no file can be opened for writing.
\<close>

theorem main_ignores_write_result_witness:
  "main \<lparr>path_exists = (\<lambda>p. True), files = [''f'' \<mapsto> ''abc''], writable = (\<lambda>p. False)\<rparr>
      ''d'' [(''f'', [\<lparr>type = ReplaceOne, token = ''b'', replacement = ''B''\<rparr>])]
    = (\<lparr>path_exists = (\<lambda>p. True), files = [''f'' \<mapsto> ''abc''], writable = (\<lambda>p. False)\<rparr>,
       [''Patched file:(f)'' @ [CHR 0x0A]], 0)"
proof -
  let ?fs = "\<lparr>path_exists = (\<lambda>p. True), files = [''f'' \<mapsto> ''abc''], writable = (\<lambda>p. False)\<rparr>"
  let ?descs = "[\<lparr>type = ReplaceOne, token = ''b'', replacement = ''B''\<rparr>]"
  have h1: "path_exists ?fs ''d''" by simp
  have h2: "main_loop ?fs [] [] = (?fs, [], 0)" by simp
  have h3: "ReadFileUTF8 ?fs ''f'' \<noteq> []" by (simp add: ReadFileUTF8_def c_str_def)
  have h4: "Apply (ReadFileUTF8 ?fs ''f'') ?descs = ([], ''aBc'')"
    by (simp add: ReadFileUTF8_def c_str_def replace_str_def)
  have h5: "WriteFileUTF8 ?fs ''f'' ''aBc'' = (?fs, False)" by (simp add: WriteFileUTF8_def)
  from main_ignores_write_result [OF h1 h2 h3 h4 h5, of "[]", THEN conjunct2, THEN conjunct2,
      THEN conjunct2]
  show ?thesis by (simp add: msg_patched_def c_str_def)
qed

end
